theory Spec2Isabelle
  imports Complex_Main "HOL-Library.Log_Nat"
begin

section \<open>Floating-point values and Python errors\<close>

text \<open>
  The program (\<^verbatim>\<open>app.py\<close>) computes on NumPy \<^verbatim>\<open>float64\<close> values. A value is
  not-a-number, one of the two infinities, or a finite number, and a finite double is a
  rational number. Every arithmetic operation gives the exact result rounded to the
  nearest double, a tie going to the even significand, and an infinity when the rounded
  result is beyond the largest double; the special values follow the IEEE 754 rules. The
  sign of zero is not modelled.
\<close>

datatype pyfloat = NaN | NInf | Fin rat | PInf

datatype py_error = KeyError | ValueError | OverflowError

text \<open>
  The nearest integer, a tie going to the even neighbour: the rounding of a significand,
  and Python's \<^verbatim>\<open>round(x)\<close> with one argument.
\<close>

definition round_half_even :: "rat \<Rightarrow> int" where
  "round_half_even r =
     (let f = \<lfloor>r\<rfloor>; d = r - of_int f
      in if d < 1 / 2 then f
         else if 1 / 2 < d then f + 1
         else if even f then f else f + 1)"

text \<open>
  Rounding to \<^verbatim>\<open>float64\<close>. For \<open>x > 0\<close>, \<open>floor_log2 x\<close> is the exponent \<open>e\<close> with
  \<open>2^e \<le> x < 2^(e+1)\<close>. A double has 53 significant bits and its exponent is at least
  \<open>-1022\<close>, so around \<open>x\<close> the doubles are the multiples of \<open>2^(ulp_exponent x)\<close>;
  \<open>round_double\<close> takes the nearest of them. \<open>fl_round\<close> adds the overflow: from
  \<open>2^1024\<close> on the result is an infinity.
\<close>

definition floor_log2 :: "rat \<Rightarrow> int" where
  "floor_log2 x =
     (let d = bitlen (fst (quotient_of x)) - bitlen (snd (quotient_of x))
      in if 2 powi d \<le> x then d else d - 1)"

definition ulp_exponent :: "rat \<Rightarrow> int" where
  "ulp_exponent x = max (floor_log2 \<bar>x\<bar>) (- 1022) - 52"

definition round_double :: "rat \<Rightarrow> rat" where
  "round_double x =
     (if x = 0 then 0
      else of_int (round_half_even (x / 2 powi ulp_exponent x)) * 2 powi ulp_exponent x)"

definition fl_round :: "rat \<Rightarrow> pyfloat" where
  "fl_round x =
     (let y = round_double x
      in if 2 ^ 1024 \<le> y then PInf else if y \<le> - (2 ^ 1024) then NInf else Fin y)"

text \<open>The finite doubles among the rationals.\<close>

definition is_double :: "rat \<Rightarrow> bool" where
  "is_double r \<longleftrightarrow> round_double r = r \<and> \<bar>r\<bar> < 2 ^ 1024"

text \<open>\<^verbatim>\<open>np.isnan\<close>.\<close>

fun isnan :: "pyfloat \<Rightarrow> bool" where
  "isnan NaN = True"
| "isnan _ = False"

fun isfinite :: "pyfloat \<Rightarrow> bool" where
  "isfinite (Fin _) = True"
| "isfinite _ = False"

text \<open>The comparison \<^verbatim>\<open><\<close> of two doubles: false as soon as one side is NaN.\<close>

fun fl_less :: "pyfloat \<Rightarrow> pyfloat \<Rightarrow> bool" where
  "fl_less NaN _ = False"
| "fl_less _ NaN = False"
| "fl_less NInf NInf = False"
| "fl_less NInf _ = True"
| "fl_less (Fin a) (Fin b) = (a < b)"
| "fl_less (Fin a) PInf = True"
| "fl_less (Fin a) NInf = False"
| "fl_less PInf _ = False"

text \<open>The comparison \<^verbatim>\<open><=\<close>.\<close>

fun fl_le :: "pyfloat \<Rightarrow> pyfloat \<Rightarrow> bool" where
  "fl_le NaN _ = False"
| "fl_le _ NaN = False"
| "fl_le NInf _ = True"
| "fl_le (Fin a) (Fin b) = (a \<le> b)"
| "fl_le (Fin a) PInf = True"
| "fl_le (Fin a) NInf = False"
| "fl_le PInf PInf = True"
| "fl_le PInf _ = False"

fun fl_neg :: "pyfloat \<Rightarrow> pyfloat" where
  "fl_neg NaN = NaN"
| "fl_neg NInf = PInf"
| "fl_neg (Fin a) = Fin (- a)"
| "fl_neg PInf = NInf"

fun fl_add :: "pyfloat \<Rightarrow> pyfloat \<Rightarrow> pyfloat" where
  "fl_add NaN _ = NaN"
| "fl_add _ NaN = NaN"
| "fl_add (Fin a) (Fin b) = fl_round (a + b)"
| "fl_add (Fin a) y = y"
| "fl_add x (Fin b) = x"
| "fl_add PInf PInf = PInf"
| "fl_add NInf NInf = NInf"
| "fl_add PInf NInf = NaN"
| "fl_add NInf PInf = NaN"

definition fl_sub :: "pyfloat \<Rightarrow> pyfloat \<Rightarrow> pyfloat" where
  "fl_sub x y = fl_add x (fl_neg y)"

text \<open>The sign of a value that is not NaN: \<open>-1\<close>, \<open>0\<close> or \<open>1\<close>.\<close>

fun fl_sgn :: "pyfloat \<Rightarrow> int" where
  "fl_sgn NaN = 0"
| "fl_sgn NInf = - 1"
| "fl_sgn (Fin a) = (if a < 0 then - 1 else if a = 0 then 0 else 1)"
| "fl_sgn PInf = 1"

fun fl_mul :: "pyfloat \<Rightarrow> pyfloat \<Rightarrow> pyfloat" where
  "fl_mul NaN _ = NaN"
| "fl_mul _ NaN = NaN"
| "fl_mul (Fin a) (Fin b) = fl_round (a * b)"
| "fl_mul x y =
     (if fl_sgn x * fl_sgn y = 0 then NaN
      else if fl_sgn x * fl_sgn y < 0 then NInf else PInf)"

text \<open>
  \<^verbatim>\<open>np.int64(a) / b\<close>: true division of a NumPy integer scalar. Both operands become
  doubles and the quotient is rounded. A zero divisor does not raise; it gives NaN or an
  infinity (with a warning). The operands here are a count and the length of an array in
  memory; such integers are below \<open>2^53\<close>, where the conversion to a double is exact.
\<close>

definition np_true_divide :: "int \<Rightarrow> int \<Rightarrow> pyfloat" where
  "np_true_divide a b =
     (if b = 0 then (if a = 0 then NaN else if 0 < a then PInf else NInf)
      else fl_round (of_int a / of_int b))"

text \<open>
  Python's \<^verbatim>\<open>round(x)\<close> with one argument: the nearest integer, a tie going to the
  even neighbour. NaN raises \<^verbatim>\<open>ValueError\<close>, an infinity \<^verbatim>\<open>OverflowError\<close>.
\<close>

fun py_round :: "pyfloat \<Rightarrow> py_error + int" where
  "py_round NaN = Inl ValueError"
| "py_round NInf = Inl OverflowError"
| "py_round PInf = Inl OverflowError"
| "py_round (Fin r) = Inr (round_half_even r)"

section \<open>Percentile rank\<close>

text \<open>\<^verbatim>\<open>np.sum(values_arr < x)\<close>: the number of elements strictly below \<open>x\<close>.\<close>

definition np_sum_less :: "pyfloat list \<Rightarrow> pyfloat \<Rightarrow> int" where
  "np_sum_less values_arr x = int (length (filter (\<lambda>v. fl_less v x) values_arr))"

text \<open>
  \<^verbatim>\<open>
  def percentile_rank(values_arr, x):
      if values_arr is None or np.isnan(x):
          return None
      return int(round((np.sum(values_arr < x) / len(values_arr)) * 100))
  \<close>
  The array argument is \<open>None\<close> (Python's \<^verbatim>\<open>None\<close>) or \<open>Some\<close> array; the result is
  \<open>Inr None\<close> for a returned \<^verbatim>\<open>None\<close>, \<open>Inr (Some n)\<close> for a returned integer and
  \<open>Inl e\<close> when the call raises.
\<close>

definition percentile_rank :: "pyfloat list option \<Rightarrow> pyfloat \<Rightarrow> py_error + int option" where
  "percentile_rank values_arr x =
     (case values_arr of
        None \<Rightarrow> Inr None
      | Some vs \<Rightarrow>
          if isnan x then Inr None
          else (case py_round (fl_mul (np_true_divide (np_sum_less vs x) (int (length vs)))
                                      (Fin 100)) of
                  Inl e \<Rightarrow> Inl e
                | Inr n \<Rightarrow> Inr (Some n)))"

section \<open>Distribution statistics\<close>

text \<open>
  \<^verbatim>\<open>np.percentile(arr, q)\<close> with NumPy's default method \<^verbatim>\<open>linear\<close>, as NumPy
  computes it: the array is sorted, the position of the percentile is
  \<open>h = (n - 1) * (q / 100)\<close>, and the result interpolates linearly between the elements
  at \<open>\<lfloor>h\<rfloor>\<close> and at the next index with weight \<open>h - \<lfloor>h\<rfloor>\<close>; a position at or
  beyond the last index takes the last element for both. The sort puts NaN last.
  The interpolation is NumPy's \<^verbatim>\<open>_lerp\<close>: \<open>a + (b - a) * t\<close> below \<open>t = 1/2\<close> and
  \<open>b - (b - a) * (1 - t)\<close> from there on. Every operation is a \<^verbatim>\<open>float64\<close>
  operation. The program calls it with \<open>q\<close> in \<open>{25, 50, 75}\<close> and a non-empty
  array; NumPy returns NaN on an empty one.
\<close>

definition sort_le :: "pyfloat \<Rightarrow> pyfloat \<Rightarrow> bool" where
  "sort_le x y = (isnan y \<or> fl_le x y)"

fun np_insort :: "pyfloat \<Rightarrow> pyfloat list \<Rightarrow> pyfloat list" where
  "np_insort x [] = [x]"
| "np_insort x (y # ys) = (if sort_le x y then x # y # ys else y # np_insort x ys)"

definition np_sort :: "pyfloat list \<Rightarrow> pyfloat list" where
  "np_sort xs = foldr np_insort xs []"

definition lerp :: "pyfloat \<Rightarrow> pyfloat \<Rightarrow> rat \<Rightarrow> pyfloat" where
  "lerp a b t =
     (let diff_b_a = fl_sub b a
      in if t < 1 / 2 then fl_add a (fl_mul diff_b_a (Fin t))
         else fl_sub b (fl_mul diff_b_a (Fin (round_double (1 - t)))))"

definition np_percentile :: "pyfloat list \<Rightarrow> rat \<Rightarrow> pyfloat" where
  "np_percentile arr q =
     (let s = np_sort arr; n = length s
      in if n = 0 then NaN
         else
           (let quantile = round_double (q / 100);
                h = round_double (of_nat (n - 1) * quantile);
                k = min (nat \<lfloor>h\<rfloor>) (n - 1);
                j = min (k + 1) (n - 1)
            in lerp (s ! k) (s ! j) (round_double (h - of_nat k))))"

text \<open>
  A Python value that is \<^verbatim>\<open>None\<close> or a float, and the three shapes of a reference
  distribution entry that \<^verbatim>\<open>get_dist_stats\<close> tells apart: \<^verbatim>\<open>None\<close>, a summary
  \<^verbatim>\<open>dict\<close>, and a raw numeric array.
\<close>

type_synonym pyval = "pyfloat option"

datatype dist_obj = PyNone | PyDict "string \<rightharpoonup> pyval" | PyArray "pyfloat list"

text \<open>The dict returned by \<^verbatim>\<open>get_dist_stats\<close>; the field \<open>values_arr\<close> is its key
  \<^verbatim>\<open>"values"\<close>.\<close>

record dist_stats =
  p25 :: pyval
  p50 :: pyval
  p75 :: pyval
  values_arr :: "pyfloat list option"

text \<open>\<^verbatim>\<open>d.get(k, default)\<close>.\<close>

definition dict_get :: "('k \<rightharpoonup> 'v) \<Rightarrow> 'k \<Rightarrow> 'v \<Rightarrow> 'v" where
  "dict_get d k dflt = (case d k of None \<Rightarrow> dflt | Some v \<Rightarrow> v)"

text \<open>
  \<^verbatim>\<open>
  def get_dist_stats(dist_obj):
      if dist_obj is None:
          return None
      if isinstance(dist_obj, dict):
          return {"p25": dist_obj.get("p25", None), "p50": dist_obj.get("p50", None),
                  "p75": dist_obj.get("p75", None), "values": None}
      arr = np.asarray(dist_obj, dtype=float)
      arr = arr[~np.isnan(arr)]
      if arr.size == 0:
          return None
      return {"p25": float(np.percentile(arr, 25)), "p50": float(np.percentile(arr, 50)),
              "p75": float(np.percentile(arr, 75)), "values": arr}
  \<close>
\<close>

definition get_dist_stats :: "dist_obj \<Rightarrow> dist_stats option" where
  "get_dist_stats obj =
     (case obj of
        PyNone \<Rightarrow> None
      | PyDict d \<Rightarrow>
          Some \<lparr>p25 = dict_get d ''p25'' None,
                p50 = dict_get d ''p50'' None,
                p75 = dict_get d ''p75'' None,
                values_arr = None\<rparr>
      | PyArray xs \<Rightarrow>
          (let arr = filter (\<lambda>v. \<not> isnan v) xs
           in if length arr = 0 then None
              else Some \<lparr>p25 = Some (np_percentile arr 25),
                         p50 = Some (np_percentile arr 50),
                         p75 = Some (np_percentile arr 75),
                         values_arr = Some arr\<rparr>))"

section \<open>Feature assembly\<close>

text \<open>
  The names of the input fields. The program writes them as string literals, most of them
  in Chinese; each constructor stands for one literal:
  \<^item> \<open>Age\<close> (nianling), \<open>BMI\<close> (tizhong zhishu);
  \<^item> \<open>Base h\<close>: the baseline endocrine level \<^verbatim>\<open>(jichu neifenmi)h\<close> of the hormone \<open>h\<close>,
    as in \<^verbatim>\<open>(...)FSH\<close>, \<^verbatim>\<open>(...)E2\<close>; the literals abbreviate testosterone to
    \<^verbatim>\<open>T\<close> and progesterone to \<^verbatim>\<open>P\<close>;
  \<^item> \<open>AFC_Left\<close>, \<open>AFC_Right\<close>: the left and right antral follicle counts;
  \<^item> \<open>Serum h i\<close>: the monitoring value \<^verbatim>\<open>(xue)h_i\<close>, built in the program as
    \<^verbatim>\<open>f"{prefix}_{i}"\<close>, and \<open>Day i\<close>: \<^verbatim>\<open>f"Day_{i}"\<close>;
  \<^item> \<open>Max_Follicle_Day_3\<close>, \<open>Left_Max_Follicle_Diameter_3\<close>,
    \<open>Right_Max_Ovary_Diameter_3\<close>: the three extra inputs.
\<close>

datatype hormone = FSH | E2 | PRL | LH | Testosterone | AMH | Progesterone

datatype key =
    Age | BMI | Base hormone | AFC_Left | AFC_Right
  | Serum hormone nat | Day nat
  | Max_Follicle_Day_3 | Left_Max_Follicle_Diameter_3 | Right_Max_Ovary_Diameter_3

definition MODEL_CORE_FEATURES :: "key list" where
  "MODEL_CORE_FEATURES =
     [Age, BMI, Base FSH, Base E2, Base PRL,
      Base LH, Base Testosterone, Base AMH, AFC_Left, AFC_Right]"

definition MODEL_DYNAMIC_FEATURES :: "key list" where
  "MODEL_DYNAMIC_FEATURES =
     [Serum E2 1, Serum LH 1, Serum FSH 1, Serum Progesterone 1, Day 1,
      Serum E2 2, Serum LH 2, Serum FSH 2, Serum Progesterone 2, Day 2,
      Serum E2 3, Serum LH 3, Serum FSH 3, Serum Progesterone 3, Day 3,
      Max_Follicle_Day_3, Left_Max_Follicle_Diameter_3, Right_Max_Ovary_Diameter_3]"

definition MODEL_ALL_FEATURES :: "key list" where
  "MODEL_ALL_FEATURES = MODEL_CORE_FEATURES @ MODEL_DYNAMIC_FEATURES"

definition UI_CORE_ORDER :: "key list" where
  "UI_CORE_ORDER =
     [Age, BMI,
      Base FSH, Base LH, Base PRL,
      Base E2, Base Testosterone, Base AMH,
      AFC_Left, AFC_Right]"

text \<open>
  \<^verbatim>\<open>st.sidebar.number_input(label, value=0.0, ...)\<close>: the number the user entered in
  the widget, and the default \<open>0.0\<close> of the widget when the user entered nothing. The
  mapping \<open>supplied\<close> holds what the user entered, field by field.
\<close>

definition st_number_input :: "(key \<rightharpoonup> pyfloat) \<Rightarrow> key \<Rightarrow> pyfloat" where
  "st_number_input supplied k = (case supplied k of None \<Rightarrow> Fin 0 | Some v \<Rightarrow> v)"

text \<open>
  The form: \<open>number_input k\<close> is what the widget of field \<open>k\<close> returns, always a float.
  \<^verbatim>\<open>
  user_input = {}
  for feat in UI_CORE_ORDER:
      user_input[feat] = st.sidebar.number_input(feat, ...)
  for i in range(1, 3 + 1):
      for prefix in [E2, LH, FSH, P]:
          key = f"{prefix}_{i}"
          user_input[key] = st.sidebar.number_input(key, ...)
      user_input[f"Day_{i}"] = st.sidebar.number_input(f"Day_{i}", ...)
  user_input[...] = ...   # the three extra inputs
  \<close>
\<close>

definition user_input :: "(key \<Rightarrow> pyfloat) \<Rightarrow> (key \<rightharpoonup> pyval)" where
  "user_input number_input =
     (let set_item = (\<lambda>k ui. ui(k \<mapsto> Some (number_input k)));
          ui1 = fold set_item UI_CORE_ORDER Map.empty;
          ui2 = fold (\<lambda>i ui. set_item (Day i)
                         (fold (\<lambda>prefix. set_item (Serum prefix i)) [E2, LH, FSH, Progesterone] ui))
                  [1, 2, 3] ui1
      in set_item Right_Max_Ovary_Diameter_3
           (set_item Left_Max_Follicle_Diameter_3
              (set_item Max_Follicle_Day_3 ui2)))"

text \<open>
  \<^verbatim>\<open>
  input_df = pd.DataFrame([user_input]).astype(float)
  input_df_filled = input_df.fillna(0.0)
  X_core = input_df_filled[MODEL_CORE_FEATURES]
  X_all = input_df_filled[MODEL_ALL_FEATURES]
  \<close>
  The frame has one row and one column for each key of the dict. \<^verbatim>\<open>astype(float)\<close>
  turns \<^verbatim>\<open>None\<close> into NaN, \<^verbatim>\<open>fillna\<close> replaces NaN, and selecting a list of columns
  raises \<^verbatim>\<open>KeyError\<close> when one of them is not in the frame.
\<close>

definition astype_float :: "pyval \<Rightarrow> pyfloat" where
  "astype_float v = (case v of None \<Rightarrow> NaN | Some f \<Rightarrow> f)"

definition fillna :: "pyfloat \<Rightarrow> pyfloat \<Rightarrow> pyfloat" where
  "fillna d v = (if isnan v then d else v)"

definition input_df_filled :: "(key \<rightharpoonup> pyval) \<Rightarrow> (key \<rightharpoonup> pyfloat)" where
  "input_df_filled ui = (\<lambda>k. map_option (\<lambda>v. fillna (Fin 0) (astype_float v)) (ui k))"

fun select_columns :: "(key \<rightharpoonup> pyfloat) \<Rightarrow> key list \<Rightarrow> py_error + pyfloat list" where
  "select_columns df [] = Inr []"
| "select_columns df (c # cs) =
     (case df c of
        None \<Rightarrow> Inl KeyError
      | Some v \<Rightarrow> (case select_columns df cs of Inl e \<Rightarrow> Inl e | Inr vs \<Rightarrow> Inr (v # vs)))"

definition X_core :: "(key \<rightharpoonup> pyval) \<Rightarrow> py_error + pyfloat list" where
  "X_core ui = select_columns (input_df_filled ui) MODEL_CORE_FEATURES"

definition X_all :: "(key \<rightharpoonup> pyval) \<Rightarrow> py_error + pyfloat list" where
  "X_all ui = select_columns (input_df_filled ui) MODEL_ALL_FEATURES"

section \<open>Trigger day\<close>

text \<open>
  \<^verbatim>\<open>trigger_day_pred = trigger_label_day_mapping.get(trigger_label, "N/A")\<close>:
  the day the table gives for the class, or the string \<^verbatim>\<open>"N/A"\<close>.
\<close>

datatype 'd trigger_day = Mapped_Day 'd | Sentinel string

definition trigger_day_pred :: "('c \<rightharpoonup> 'd) \<Rightarrow> 'c \<Rightarrow> 'd trigger_day" where
  "trigger_day_pred trigger_label_day_mapping trigger_label =
     dict_get (\<lambda>c. map_option Mapped_Day (trigger_label_day_mapping c))
       trigger_label (Sentinel ''N/A'')"

section \<open>The serum E2 percentile plot\<close>

text \<open>
  What the loop over the three monitoring rounds produces: the calls on the axes, in order,
  and the lines of \<^verbatim>\<open>percentile_text\<close>.
\<close>

datatype draw_cmd =
    Plot nat pyfloat pyfloat
  | Scatter nat pyfloat
  | Text nat pyfloat "int option"

datatype text_line = At_Percentile key pyfloat int | Reference_Only key pyfloat

record plot_state =
  ax :: "draw_cmd list"
  percentile_text :: "text_line list"

text \<open>
  \<^verbatim>\<open>
  for i, key in enumerate([E2_1, E2_2, E2_3], start=1):
      dist_obj = e2_percentiles.get(key, None)
      stats = get_dist_stats(dist_obj)
      val = input_df_filled[key].values[0]
      if stats is not None:
          if stats["p25"] is not None and stats["p75"] is not None:
              ax.plot([i, i], [stats["p25"], stats["p75"]], linewidth=6)
          if not np.isnan(val):
              pr = percentile_rank(stats["values"], val)
              ax.scatter(i, val, s=40)
              label_txt = f"{val:.0f}" + (f" (P{pr})" if pr is not None else "")
              ax.text(i + 0.1, val, label_txt, fontsize=9)
              if pr is not None:
                  percentile_text.append(... at P{pr})
              else:
                  percentile_text.append(... (reference P25-P75))
  \<close>
\<close>

definition plot_step ::
  "(key \<rightharpoonup> dist_obj) \<Rightarrow> (key \<rightharpoonup> pyfloat) \<Rightarrow> plot_state \<Rightarrow> nat \<times> key
     \<Rightarrow> py_error + plot_state" where
  "plot_step e2_percentiles df st ik =
     (let i = fst ik; key = snd ik;
          dist_obj = dict_get e2_percentiles key PyNone;
          stats = get_dist_stats dist_obj
      in case df key of
           None \<Rightarrow> Inl KeyError
         | Some val \<Rightarrow>
             (case stats of
                None \<Rightarrow> Inr st
              | Some s \<Rightarrow>
                  (let st1 = (case p25 s of
                                None \<Rightarrow> st
                              | Some lo \<Rightarrow>
                                  (case p75 s of
                                     None \<Rightarrow> st
                                   | Some hi \<Rightarrow> st\<lparr>ax := ax st @ [Plot i lo hi]\<rparr>))
                   in if \<not> isnan val then
                        (case percentile_rank (values_arr s) val of
                           Inl e \<Rightarrow> Inl e
                         | Inr pr \<Rightarrow>
                             Inr (st1\<lparr>ax := ax st1 @ [Scatter i val, Text i val pr],
                                      percentile_text := percentile_text st1 @
                                        [case pr of
                                           Some n \<Rightarrow> At_Percentile key val n
                                         | None \<Rightarrow> Reference_Only key val]\<rparr>))
                      else Inr st1)))"

fun plot_loop ::
  "(key \<rightharpoonup> dist_obj) \<Rightarrow> (key \<rightharpoonup> pyfloat) \<Rightarrow> plot_state \<Rightarrow> (nat \<times> key) list
     \<Rightarrow> py_error + plot_state" where
  "plot_loop e2_percentiles df st [] = Inr st"
| "plot_loop e2_percentiles df st (ik # rest) =
     (case plot_step e2_percentiles df st ik of
        Inl e \<Rightarrow> Inl e
      | Inr st' \<Rightarrow> plot_loop e2_percentiles df st' rest)"

text \<open>\<^verbatim>\<open>enumerate(xs, start)\<close>.\<close>

definition enumerate_from :: "nat \<Rightarrow> 'a list \<Rightarrow> (nat \<times> 'a) list" where
  "enumerate_from start xs = zip [start ..< start + length xs] xs"

definition e2_percentile_plot ::
  "(key \<rightharpoonup> dist_obj) \<Rightarrow> (key \<rightharpoonup> pyfloat) \<Rightarrow> py_error + plot_state" where
  "e2_percentile_plot e2_percentiles df =
     plot_loop e2_percentiles df \<lparr>ax = [], percentile_text = []\<rparr>
       (enumerate_from 1 [Serum E2 1, Serum E2 2, Serum E2 3])"

text \<open>
  The contract of feature assembly in the words of the specification, for one field of
  the user-supplied mapping: an entry that is absent or NaN becomes \<open>0.0\<close>, every other
  supplied value is passed through.
\<close>

fun spec_default_zero :: "pyfloat option \<Rightarrow> pyfloat" where
  "spec_default_zero None = Fin 0"
| "spec_default_zero (Some v) = (if v = NaN then Fin 0 else v)"

section \<open>Properties of rounding to a double\<close>

lemma two_powi_pos: "0 < (2::rat) powi e"
  by simp

lemma two_powi_add: "(2::rat) powi (a + b) = 2 powi a * 2 powi b"
  by (simp add: power_int_add)

lemma two_powi_diff: "(2::rat) powi (a - b) = 2 powi a / 2 powi b"
  by (simp add: power_int_diff)

lemma two_powi_mono: "a \<le> b \<Longrightarrow> (2::rat) powi a \<le> 2 powi b"
  by (rule power_int_increasing) simp_all

lemma two_powi_strict_mono: "a < b \<Longrightarrow> (2::rat) powi a < 2 powi b"
  by (rule power_int_strict_increasing) simp_all

lemma two_powi_less_cancel: "(2::rat) powi a < 2 powi b \<Longrightarrow> a < b"
  using two_powi_mono [of b a] by (cases "a < b") (simp_all add: not_less)

lemma bitlen_powi_bounds:
  assumes "0 < a"
  shows "(2::rat) powi (bitlen a - 1) \<le> of_int a" and "of_int a < (2::rat) powi bitlen a"
proof -
  from assms have b1: "1 \<le> bitlen a" by (auto simp: bitlen_alt_def)
  from bitlen_bounds [OF assms]
  have lo: "2 ^ nat (bitlen a - 1) \<le> a" and hi: "a < 2 ^ nat (bitlen a)" by simp_all
  from lo have "(of_int (2 ^ nat (bitlen a - 1)) :: rat) \<le> of_int a"
    by (simp only: of_int_le_iff)
  with b1 show "(2::rat) powi (bitlen a - 1) \<le> of_int a"
    by (simp add: power_int_def)
  from hi have "(of_int a :: rat) < of_int (2 ^ nat (bitlen a))"
    by (simp only: of_int_less_iff)
  with b1 show "of_int a < (2::rat) powi bitlen a"
    by (simp add: power_int_def)
qed

lemma floor_log2_bounds:
  assumes "0 < x"
  shows "2 powi floor_log2 x \<le> x" and "x < 2 powi (floor_log2 x + 1)"
proof -
  obtain a b where ab: "quotient_of x = (a, b)" by (cases "quotient_of x")
  then have b: "0 < b" by (rule quotient_of_denom_pos)
  from ab have x: "x = of_int a / of_int b" by (rule quotient_of_div)
  with assms b have a: "0 < a" by (simp add: zero_less_divide_iff)
  let ?d = "bitlen a - bitlen b"
  note A = bitlen_powi_bounds [OF a] and B = bitlen_powi_bounds [OF b]
  from b have bq: "(0::rat) < of_int b" by simp
  have up: "x < 2 powi (?d + 1)"
  proof -
    have "of_int a < (2::rat) powi bitlen a" by (rule A(2))
    also have "\<dots> = 2 powi (?d + 1) * 2 powi (bitlen b - 1)"
      by (simp flip: two_powi_add)
    also have "\<dots> \<le> 2 powi (?d + 1) * of_int b"
      using B(1) by (intro mult_left_mono) simp_all
    finally show ?thesis using bq by (simp add: x divide_less_eq)
  qed
  have lo: "2 powi (?d - 1) \<le> x"
  proof -
    have "2 powi (?d - 1) * of_int b \<le> 2 powi (?d - 1) * (2::rat) powi bitlen b"
      using B(2) by (intro mult_left_mono) simp_all
    also have "\<dots> = 2 powi (bitlen a - 1)"
      by (simp flip: two_powi_add)
    also have "\<dots> \<le> of_int a" by (rule A(1))
    finally show ?thesis using bq by (simp add: x le_divide_eq)
  qed
  have fl: "floor_log2 x = (if 2 powi ?d \<le> x then ?d else ?d - 1)"
    by (simp add: floor_log2_def ab Let_def)
  show "2 powi floor_log2 x \<le> x"
    using lo by (simp add: fl)
  show "x < 2 powi (floor_log2 x + 1)"
    using up by (simp add: fl not_le)
qed

lemma floor_log2_unique:
  assumes "2 powi e \<le> x" and "x < 2 powi (e + 1)"
  shows "floor_log2 x = e"
proof -
  have "0 < (2::rat) powi e" by simp
  with assms(1) have pos: "0 < x" by linarith
  note F = floor_log2_bounds [OF pos]
  have "2 powi e < (2::rat) powi (floor_log2 x + 1)" using assms(1) F(2) by linarith
  then have 1: "e < floor_log2 x + 1" by (rule two_powi_less_cancel)
  have "2 powi floor_log2 x < (2::rat) powi (e + 1)" using assms(2) F(1) by linarith
  then have 2: "floor_log2 x < e + 1" by (rule two_powi_less_cancel)
  from 1 2 show ?thesis by linarith
qed

lemma floor_log2_mono:
  assumes "0 < x" and "x \<le> y"
  shows "floor_log2 x \<le> floor_log2 y"
proof -
  from assms have y: "0 < y" by linarith
  have "2 powi floor_log2 x < (2::rat) powi (floor_log2 y + 1)"
    using floor_log2_bounds(1) [OF assms(1)] floor_log2_bounds(2) [OF y] assms(2) by linarith
  then have "floor_log2 x < floor_log2 y + 1" by (rule two_powi_less_cancel)
  then show ?thesis by simp
qed

lemma round_half_even_of_int: "round_half_even (of_int n) = n"
  by (simp add: round_half_even_def)

lemma round_half_even_lower: "\<lfloor>r\<rfloor> \<le> round_half_even r"
  by (simp add: round_half_even_def Let_def)

lemma round_half_even_upper: "round_half_even r \<le> \<lfloor>r\<rfloor> + 1"
  by (simp add: round_half_even_def Let_def)

lemma round_half_even_mono:
  assumes "r \<le> s"
  shows "round_half_even r \<le> round_half_even s"
proof (cases "\<lfloor>r\<rfloor> = \<lfloor>s\<rfloor>")
  case True
  with assms show ?thesis
    by (auto simp add: round_half_even_def Let_def)
next
  case False
  with assms have "\<lfloor>r\<rfloor> < \<lfloor>s\<rfloor>"
    using floor_mono [of r s] by linarith
  then have "\<lfloor>r\<rfloor> + 1 \<le> \<lfloor>s\<rfloor>" by simp
  with round_half_even_upper [of r] round_half_even_lower [of s] show ?thesis by linarith
qed

lemma round_half_even_le: "r \<le> of_int n \<Longrightarrow> round_half_even r \<le> n"
  using round_half_even_mono [of r "of_int n"] by (simp add: round_half_even_of_int)

lemma round_half_even_ge: "of_int n \<le> r \<Longrightarrow> n \<le> round_half_even r"
  using round_half_even_mono [of "of_int n" r] by (simp add: round_half_even_of_int)

lemma round_half_even_error: "\<bar>of_int (round_half_even r) - r\<bar> \<le> 1 / 2"
proof -
  have "of_int \<lfloor>r\<rfloor> \<le> r" and "r < of_int \<lfloor>r\<rfloor> + 1" by linarith+
  then show ?thesis
    by (auto simp add: round_half_even_def Let_def abs_le_iff)
qed

lemma round_half_even_minus: "round_half_even (- r) = - round_half_even r"
proof (cases "r = of_int \<lfloor>r\<rfloor>")
  case True
  then obtain n where "r = of_int n" ..
  then have "- r = of_int (- n)" by simp
  then show ?thesis
    using \<open>r = of_int n\<close> by (simp only: round_half_even_of_int)
next
  case False
  define f where "f = \<lfloor>r\<rfloor>"
  define d where "d = r - of_int f"
  have "of_int f \<le> r" and "r < of_int f + 1" unfolding f_def by linarith+
  with False have d: "0 < d" "d < 1" unfolding d_def f_def by linarith+
  have r: "r = of_int f + d" by (simp add: d_def)
  have "\<lfloor>- r\<rfloor> = - f - 1"
    using d by (intro floor_unique) (simp_all add: r)
  then have m: "round_half_even (- r) =
      (if 1 - d < 1 / 2 then - f - 1 else if 1 / 2 < 1 - d then - f
       else if even (- f - 1) then - f - 1 else - f)"
    by (simp add: round_half_even_def Let_def r)
  have p: "round_half_even r =
      (if d < 1 / 2 then f else if 1 / 2 < d then f + 1 else if even f then f else f + 1)"
    by (simp add: round_half_even_def Let_def f_def d_def)
  consider "d < 1 / 2" | "1 / 2 < d" | "d = 1 / 2" by linarith
  then show ?thesis
  proof cases
    case 1
    then show ?thesis by (simp add: m p)
  next
    case 2
    then show ?thesis by (simp add: m p)
  next
    case 3
    then show ?thesis by (simp add: m p)
  qed
qed

lemma ulp_exponent_minus: "ulp_exponent (- x) = ulp_exponent x"
  by (simp add: ulp_exponent_def)

lemma ulp_exponent_ge: "- 1074 \<le> ulp_exponent x"
  by (simp add: ulp_exponent_def)

lemma ulp_exponent_eqI:
  assumes "2 powi e \<le> \<bar>x\<bar>" and "\<bar>x\<bar> < 2 powi (e + 1)"
  shows "ulp_exponent x = max e (- 1022) - 52"
  using floor_log2_unique [OF assms] by (simp add: ulp_exponent_def)

lemma round_double_0: "round_double 0 = 0"
  by (simp add: round_double_def)

lemma round_double_minus: "round_double (- x) = - round_double x"
  by (simp add: round_double_def ulp_exponent_minus round_half_even_minus)

lemma round_double_eqI:
  assumes "2 powi e \<le> \<bar>x\<bar>" and "\<bar>x\<bar> < 2 powi (e + 1)" and "u = max e (- 1022) - 52"
  shows "round_double x = of_int (round_half_even (x / 2 powi u)) * 2 powi u"
proof -
  have "0 < (2::rat) powi e" by simp
  with assms(1) have "0 < \<bar>x\<bar>" by linarith
  then have "x \<noteq> 0" by simp
  then show ?thesis
    by (simp add: round_double_def ulp_exponent_eqI [OF assms(1,2)] assms(3))
qed

text \<open>The scaled value stays below \<open>2^53\<close>, and from the normal range on it is at least \<open>2^52\<close>.\<close>

lemma scaled_upper:
  assumes "0 < x"
  shows "x / 2 powi ulp_exponent x < 2 ^ 53"
proof -
  have "floor_log2 x + 1 \<le> ulp_exponent x + 53"
    using assms by (simp add: ulp_exponent_def)
  then have "(2::rat) powi (floor_log2 x + 1) \<le> 2 powi (ulp_exponent x + 53)"
    by (rule two_powi_mono)
  with floor_log2_bounds(2) [OF assms]
  have "x < 2 powi (ulp_exponent x + 53)" by linarith
  also have "\<dots> = 2 powi ulp_exponent x * 2 ^ 53"
    by (simp add: two_powi_add)
  finally show ?thesis by (simp add: divide_less_eq mult.commute)
qed

lemma round_double_nonneg:
  assumes "0 \<le> x"
  shows "0 \<le> round_double x"
proof -
  have "0 \<le> x / 2 powi ulp_exponent x" using assms by simp
  then have "0 \<le> round_half_even (x / 2 powi ulp_exponent x)"
    using round_half_even_ge [of 0] by simp
  then show ?thesis by (simp add: round_double_def)
qed

lemma round_double_upper_pow:
  assumes "0 < x"
  shows "round_double x \<le> 2 powi (ulp_exponent x + 53)"
proof -
  from scaled_upper [OF assms]
  have "x / 2 powi ulp_exponent x \<le> of_int (2 ^ 53)" by simp
  then have "round_half_even (x / 2 powi ulp_exponent x) \<le> 2 ^ 53"
    by (rule round_half_even_le)
  then have "(of_int (round_half_even (x / 2 powi ulp_exponent x)) :: rat) \<le> of_int (2 ^ 53)"
    by (simp only: of_int_le_iff)
  then have "of_int (round_half_even (x / 2 powi ulp_exponent x)) * 2 powi ulp_exponent x
        \<le> (2 ^ 53 :: rat) * 2 powi ulp_exponent x"
    by (intro mult_right_mono) simp_all
  with assms show ?thesis
    by (simp add: round_double_def two_powi_add mult.commute)
qed

lemma round_double_lower_pow:
  assumes "0 < x" and "- 1022 \<le> floor_log2 x"
  shows "2 powi floor_log2 x \<le> round_double x"
proof -
  from assms(2) have u: "ulp_exponent x = floor_log2 x - 52"
    using assms(1) by (simp add: ulp_exponent_def)
  have "2 powi floor_log2 x = (2 ^ 52 :: rat) * 2 powi ulp_exponent x"
    by (simp add: u two_powi_diff)
  with floor_log2_bounds(1) [OF assms(1)]
  have "of_int (2 ^ 52) \<le> x / 2 powi ulp_exponent x"
    by (simp add: le_divide_eq)
  then have "2 ^ 52 \<le> round_half_even (x / 2 powi ulp_exponent x)"
    by (rule round_half_even_ge)
  then have "(of_int (2 ^ 52) :: rat) \<le> of_int (round_half_even (x / 2 powi ulp_exponent x))"
    by (simp only: of_int_le_iff)
  then have "(2 ^ 52 :: rat) * 2 powi ulp_exponent x
        \<le> of_int (round_half_even (x / 2 powi ulp_exponent x)) * 2 powi ulp_exponent x"
    by (intro mult_right_mono) simp_all
  with assms(1) show ?thesis
    by (simp add: round_double_def u two_powi_diff)
qed

lemma round_double_mono_pos:
  assumes "0 < x" and "x \<le> y"
  shows "round_double x \<le> round_double y"
proof -
  from assms have y: "0 < y" by linarith
  have E: "floor_log2 x \<le> floor_log2 y" using assms by (rule floor_log2_mono)
  then have U: "ulp_exponent x \<le> ulp_exponent y"
    using assms(1) y by (simp add: ulp_exponent_def)
  show ?thesis
  proof (cases "ulp_exponent x = ulp_exponent y")
    case True
    have "x / 2 powi ulp_exponent y \<le> y / 2 powi ulp_exponent y"
      using assms(2) by (simp add: divide_right_mono)
    then have "round_half_even (x / 2 powi ulp_exponent y)
        \<le> round_half_even (y / 2 powi ulp_exponent y)"
      by (rule round_half_even_mono)
    then have "(of_int (round_half_even (x / 2 powi ulp_exponent y)) :: rat)
        \<le> of_int (round_half_even (y / 2 powi ulp_exponent y))"
      by (simp only: of_int_le_iff)
    then have "of_int (round_half_even (x / 2 powi ulp_exponent y)) * 2 powi ulp_exponent y
        \<le> of_int (round_half_even (y / 2 powi ulp_exponent y)) * (2::rat) powi ulp_exponent y"
      by (intro mult_right_mono) simp_all
    with assms(1) y True show ?thesis by (simp add: round_double_def)
  next
    case False
    with U have lt: "ulp_exponent x < ulp_exponent y" by simp
    then have Ey: "- 1022 \<le> floor_log2 y" and "ulp_exponent x + 53 \<le> floor_log2 y"
      using assms(1) y unfolding ulp_exponent_def by (simp_all add: max_def split: if_splits)
    then have "(2::rat) powi (ulp_exponent x + 53) \<le> 2 powi floor_log2 y"
      by (intro two_powi_mono)
    with round_double_upper_pow [OF assms(1)] round_double_lower_pow [OF y Ey]
    show ?thesis by linarith
  qed
qed

lemma round_double_mono:
  assumes "x \<le> y"
  shows "round_double x \<le> round_double y"
proof -
  consider "0 < x" | "x \<le> 0" "0 \<le> y" | "y < 0" by linarith
  then show ?thesis
  proof cases
    case 1
    then show ?thesis using assms by (rule round_double_mono_pos)
  next
    case 2
    then have "0 \<le> round_double y" by (intro round_double_nonneg)
    moreover from 2 have "0 \<le> round_double (- x)" by (intro round_double_nonneg) simp
    ultimately show ?thesis by (simp add: round_double_minus)
  next
    case 3
    with assms have "0 < - y" and "- y \<le> - x" by simp_all
    then have "round_double (- y) \<le> round_double (- x)" by (rule round_double_mono_pos)
    then show ?thesis by (simp add: round_double_minus)
  qed
qed

lemma round_double_error: "\<bar>round_double x - x\<bar> \<le> 2 powi ulp_exponent x / 2"
proof (cases "x = 0")
  case True
  then show ?thesis by (simp add: round_double_def)
next
  case False
  let ?u = "2 powi ulp_exponent x :: rat"
  have u: "0 < ?u" by simp
  have "round_double x - x = (of_int (round_half_even (x / ?u)) - x / ?u) * ?u"
    using False by (simp add: round_double_def algebra_simps)
  then have "\<bar>round_double x - x\<bar> = \<bar>of_int (round_half_even (x / ?u)) - x / ?u\<bar> * ?u"
    using u by (simp add: abs_mult)
  also have "\<dots> \<le> 1 / 2 * ?u"
    using round_half_even_error [of "x / ?u"] by (intro mult_right_mono) simp_all
  finally show ?thesis by simp
qed

lemma ulp_bound:
  assumes "x \<noteq> 0"
  shows "2 powi ulp_exponent x \<le> max (\<bar>x\<bar> / 2 ^ 52) (2 powi (- 1074))"
proof (cases "- 1022 \<le> floor_log2 \<bar>x\<bar>")
  case True
  then have "ulp_exponent x = floor_log2 \<bar>x\<bar> - 52" by (simp add: ulp_exponent_def)
  then have "2 powi ulp_exponent x = 2 powi floor_log2 \<bar>x\<bar> / (2 ^ 52 :: rat)"
    by (simp add: two_powi_diff)
  also have "\<dots> \<le> \<bar>x\<bar> / 2 ^ 52"
    using floor_log2_bounds(1) [of "\<bar>x\<bar>"] assms by (intro divide_right_mono) simp_all
  finally show ?thesis by simp
next
  case False
  then have "ulp_exponent x = - 1074" by (simp add: ulp_exponent_def)
  then show ?thesis by simp
qed

text \<open>A number with a significand below \<open>2^53\<close> and an exponent from \<open>-1074\<close> on is not
  changed by rounding.\<close>

lemma round_double_exact:
  assumes "x = of_int m * 2 powi e" and "\<bar>m\<bar> < 2 ^ 53" and "- 1074 \<le> e"
  shows "round_double x = x"
proof (cases "x = 0")
  case True
  then show ?thesis by (simp add: round_double_def)
next
  case False
  then have pos: "0 < \<bar>x\<bar>" by simp
  have "\<bar>x\<bar> = of_int \<bar>m\<bar> * 2 powi e" by (simp add: assms(1) abs_mult)
  also have "\<dots> < of_int (2 ^ 53) * 2 powi e"
    using assms(2) by (intro mult_strict_right_mono) (simp_all only: of_int_less_iff two_powi_pos)
  also have "\<dots> = 2 powi (e + 53)" by (simp add: two_powi_add)
  finally have "2 powi floor_log2 \<bar>x\<bar> < (2::rat) powi (e + 53)"
    using floor_log2_bounds(1) [OF pos] by linarith
  then have "floor_log2 \<bar>x\<bar> < e + 53" by (rule two_powi_less_cancel)
  with assms(3) have ue: "ulp_exponent x \<le> e" by (simp add: ulp_exponent_def)
  define u where "u = ulp_exponent x"
  define k where "k = nat (e - u)"
  from ue have e: "e = u + int k" by (simp add: k_def u_def)
  have pe: "(2::rat) powi e = 2 powi u * 2 ^ k"
    by (simp only: e two_powi_add power_int_of_nat)
  have rd: "round_double x = of_int (round_half_even (x / 2 powi u)) * 2 powi u"
    using False by (simp add: round_double_def u_def)
  have "x / 2 powi u = of_int m * 2 ^ k"
    unfolding assms(1) pe by simp
  also have "\<dots> = of_int (m * 2 ^ k)" by simp
  finally have "round_half_even (x / 2 powi u) = m * 2 ^ k"
    by (simp only: round_half_even_of_int)
  then have "round_double x = of_int (m * 2 ^ k) * 2 powi u"
    by (simp only: rd)
  also have "\<dots> = x"
    unfolding assms(1) pe by simp
  finally show ?thesis .
qed

lemma round_double_of_int:
  assumes "\<bar>m\<bar> < 2 ^ 53"
  shows "round_double (of_int m) = of_int m"
  using round_double_exact [of "of_int m" m 0] assms by simp

lemma round_double_grid: "\<exists>m. round_double x = of_int m * 2 powi (- 1074)"
proof (cases "x = 0")
  case True
  then have "round_double x = of_int 0 * 2 powi (- 1074)" by (simp add: round_double_def)
  then show ?thesis ..
next
  case False
  define k where "k = nat (ulp_exponent x + 1074)"
  have u: "ulp_exponent x = - 1074 + int k"
    using ulp_exponent_ge [of x] by (simp add: k_def)
  have "2 powi ulp_exponent x = (2 ^ k :: rat) * 2 powi (- 1074)"
    by (subst u) (simp only: two_powi_add power_int_of_nat mult.commute)
  then have "round_double x
      = of_int (round_half_even (x / 2 powi ulp_exponent x) * 2 ^ k) * 2 powi (- 1074)"
    using False by (simp add: round_double_def)
  then show ?thesis ..
qed

lemma is_double_grid:
  assumes "is_double a"
  shows "\<exists>m. a = of_int m * 2 powi (- 1074)"
  using round_double_grid [of a] assms by (simp add: is_double_def)

lemma fl_round_Fin:
  assumes "\<bar>round_double x\<bar> < 2 ^ 1024"
  shows "fl_round x = Fin (round_double x)"
  using assms by (simp add: fl_round_def Let_def abs_less_iff not_le)

lemma round_double_le_exact:
  assumes "x \<le> y" and "round_double y = y"
  shows "round_double x \<le> y"
  using round_double_mono [OF assms(1)] assms(2) by simp

lemma round_double_ge_exact:
  assumes "y \<le> x" and "round_double y = y"
  shows "y \<le> round_double x"
  using round_double_mono [OF assms(1)] assms(2) by simp

section \<open>Properties of the percentile rank\<close>

lemma round_half_even_eqI:
  assumes "of_int n - 1 / 2 < r" and "r < of_int n + 1 / 2"
  shows "round_half_even r = n"
proof -
  have "\<bar>(of_int (round_half_even r) :: rat) - of_int n\<bar> < 1"
    using round_half_even_error [of r] assms by (simp only: abs_less_iff abs_le_iff) linarith
  then have "\<bar>round_half_even r - n\<bar> < 1"
    by (simp only: flip: of_int_diff of_int_abs)
  then show ?thesis by simp
qed

lemma isnan_iff: "isnan x \<longleftrightarrow> x = NaN"
  by (cases x) simp_all

lemma np_sum_less_le: "np_sum_less vs x \<le> int (length vs)"
  by (simp add: np_sum_less_def)

lemma np_sum_less_nonneg: "0 \<le> np_sum_less vs x"
  by (simp add: np_sum_less_def)

lemma round_double_1: "round_double 1 = 1"
  using round_double_of_int [of 1] by simp

lemma round_double_100: "round_double 100 = 100"
  using round_double_of_int [of 100] by simp

lemma quotient_round_range:
  assumes "0 \<le> c" and "c \<le> n" and "0 < n"
  shows "0 \<le> round_double (of_int c / of_int n)" and "round_double (of_int c / of_int n) \<le> 1"
proof -
  from assms show "0 \<le> round_double (of_int c / of_int n)"
    by (intro round_double_nonneg) simp
  from assms have "(of_int c :: rat) / of_int n \<le> 1" by (simp add: divide_le_eq)
  then show "round_double (of_int c / of_int n) \<le> 1"
    using round_double_1 by (rule round_double_le_exact)
qed

lemma product_round_range:
  assumes "0 \<le> y" and "y \<le> 1"
  shows "0 \<le> round_double (y * 100)" and "round_double (y * 100) \<le> 100"
proof -
  from assms(1) show "0 \<le> round_double (y * 100)"
    by (intro round_double_nonneg) simp
  from assms(2) have "y * 100 \<le> 100" by simp
  then show "round_double (y * 100) \<le> 100"
    using round_double_100 by (rule round_double_le_exact)
qed

text \<open>The value that \<open>percentile_rank\<close> rounds: the quotient and the product with 100, each
  rounded to a double.\<close>

lemma rank_value:
  assumes "vs \<noteq> []"
  shows "fl_mul (np_true_divide (np_sum_less vs x) (int (length vs))) (Fin 100)
           = Fin (round_double
                    (round_double (of_int (np_sum_less vs x) / of_int (int (length vs))) * 100))"
    and "0 \<le> round_double
                 (round_double (of_int (np_sum_less vs x) / of_int (int (length vs))) * 100)"
    and "round_double
           (round_double (of_int (np_sum_less vs x) / of_int (int (length vs))) * 100) \<le> 100"
proof -
  let ?y = "round_double (of_int (np_sum_less vs x) / of_int (int (length vs)))"
  from assms have n: "0 < int (length vs)" by simp
  note Y = quotient_round_range [OF np_sum_less_nonneg [of vs x] np_sum_less_le [of vs x] n]
  note Z = product_round_range [OF Y]
  from Y have "fl_round (of_int (np_sum_less vs x) / of_int (int (length vs))) = Fin ?y"
    by (intro fl_round_Fin) (simp add: abs_less_iff)
  moreover from Z have "fl_round (?y * 100) = Fin (round_double (?y * 100))"
    by (intro fl_round_Fin) (simp add: abs_less_iff)
  ultimately show "fl_mul (np_true_divide (np_sum_less vs x) (int (length vs))) (Fin 100)
           = Fin (round_double (?y * 100))"
    using assms by (simp add: np_true_divide_def)
  from Z show "0 \<le> round_double (?y * 100)" and "round_double (?y * 100) \<le> 100" .
qed

lemma percentile_rank_nonempty:
  assumes "vs \<noteq> []" and "\<not> isnan x"
  shows "percentile_rank (Some vs) x =
           Inr (Some (round_half_even (round_double
                  (round_double (of_int (np_sum_less vs x) / of_int (int (length vs))) * 100))))"
  using assms by (simp add: percentile_rank_def rank_value(1))

lemma percentile_rank_empty:
  assumes "\<not> isnan x"
  shows "percentile_rank (Some []) x = Inl ValueError"
  using assms by (simp add: percentile_rank_def np_true_divide_def np_sum_less_def)

subsection \<open>Some values of the rounding\<close>

lemma round_double_quarter: "round_double (1 / 4) = 1 / 4"
  using round_double_exact [of "1 / 4" 1 "- 2"] by simp

lemma round_double_eighth: "round_double (1 / 8) = 1 / 8"
  using round_double_exact [of "1 / 8" 1 "- 3"] by simp

lemma round_double_25: "round_double 25 = 25"
  using round_double_of_int [of 25] by simp

lemma round_double_25_half: "round_double (25 / 2) = 25 / 2"
  using round_double_exact [of "25 / 2" 25 "- 1"] by simp

lemma round_double_23_40: "round_double (23 / 40) = 5179139571476070 / 2 ^ 53"
proof -
  have "round_half_even (23 / 40 / 2 powi (- 53)) = 5179139571476070"
    by (rule round_half_even_eqI) simp_all
  with round_double_eqI [of "- 1" "23 / 40" "- 53"] show ?thesis by simp
qed

lemma round_double_23_40_times_100:
  "round_double (5179139571476070 / 2 ^ 53 * 100) = 8092405580431359 / 2 ^ 47"
proof -
  have "round_half_even (5179139571476070 / 2 ^ 53 * 100 / 2 powi (- 47)) = 8092405580431359"
    by (rule round_half_even_eqI) simp_all
  with round_double_eqI [of 5 "5179139571476070 / 2 ^ 53 * 100" "- 47"] show ?thesis by simp
qed

lemma rhe_57: "round_half_even (8092405580431359 / 2 ^ 47) = 57"
  by (rule round_half_even_eqI) simp_all

lemma round_half_even_tie:
  assumes "r = of_int f + 1 / 2"
  shows "round_half_even r = (if even f then f else f + 1)"
proof -
  have "\<lfloor>r\<rfloor> = f" by (rule floor_unique) (simp_all add: assms)
  then show ?thesis by (simp add: round_half_even_def Let_def assms)
qed

lemma rank_23_of_40:
  "round_half_even (round_double (round_double (23 / 40) * 100)) = 57"
  by (simp only: round_double_23_40 round_double_23_40_times_100 rhe_57)

text \<open>
  Claim C1, as stated: \<open>percentile_rank\<close> equals \<open>round (100 * count / len)\<close>. The code
  computes \<open>(count / len) * 100\<close> in \<^verbatim>\<open>float64\<close>. With 23 of 40 elements below \<open>x\<close>
  the quotient \<open>0.575\<close> is rounded down to a double, the product is
  \<open>57.49999999999999\<close> and the code returns 57, where \<open>100 * 23 / 40 = 57.5\<close> rounds
  to 58.
\<close>

theorem percentile_rank_float_rounding_differs:
  "percentile_rank (Some (replicate 23 (Fin 0) @ replicate 17 (Fin 1))) (Fin 1) = Inr (Some 57)
   \<and> length (filter (\<lambda>v. fl_less v (Fin 1)) (replicate 23 (Fin 0) @ replicate 17 (Fin 1))) = 23
   \<and> length (replicate 23 (Fin 0) @ replicate 17 (Fin 1)) = 40
   \<and> round_half_even (100 * 23 / 40) = 58"
proof -
  let ?V = "replicate 23 (Fin 0) @ replicate 17 (Fin 1)"
  have "round_half_even (100 * 23 / 40) = 58"
    using round_half_even_tie [of "100 * 23 / 40" 57] by simp
  moreover have q: "(of_int (np_sum_less ?V (Fin 1)) :: rat) / of_int (int (length ?V)) = 23 / 40"
    by (simp add: np_sum_less_def)
  have "percentile_rank (Some ?V) (Fin 1) = Inr (Some 57)"
    by (subst percentile_rank_nonempty) (simp_all only: q rank_23_of_40, simp_all)
  ultimately show ?thesis by simp
qed

subsection \<open>The rank formula\<close>

lemma round_double_close:
  assumes "\<bar>x\<bar> \<le> b" and "2 powi (- 1074) \<le> b / 2 ^ 52"
  shows "\<bar>round_double x - x\<bar> \<le> b / 2 ^ 53"
proof (cases "x = 0")
  case True
  with assms show ?thesis by (simp add: round_double_0)
next
  case False
  have "\<bar>x\<bar> / 2 ^ 52 \<le> b / 2 ^ 52" using assms(1) by (simp add: divide_right_mono)
  with ulp_bound [OF False] assms(2) have "2 powi ulp_exponent x \<le> b / 2 ^ 52" by simp
  with round_double_error [of x] show ?thesis by simp
qed

lemma tiny_le: "(2::rat) powi (- 1074) \<le> 1 / 2 ^ 52"
proof -
  have "(2::rat) powi (- 1074) \<le> 2 powi (- 52)" by (rule two_powi_mono) simp
  then show ?thesis by (simp add: power_int_minus_divide)
qed

lemma rank_close:
  assumes "0 \<le> q" and "q \<le> 1"
  shows "\<bar>round_half_even (round_double (round_double q * 100)) - round_half_even (100 * q)\<bar> \<le> 1"
proof -
  let ?y = "round_double q" and ?z = "round_double (round_double q * 100)"
  from assms have "\<bar>q\<bar> \<le> 1" by simp
  then have 1: "\<bar>?y - q\<bar> \<le> 1 / 2 ^ 53"
    using tiny_le by (rule round_double_close)
  have y: "0 \<le> ?y" "?y \<le> 1"
    using assms round_double_nonneg round_double_le_exact [OF _ round_double_1] by simp_all
  then have "\<bar>?y * 100\<bar> \<le> 100" by simp
  moreover have "(2::rat) powi (- 1074) \<le> 100 / 2 ^ 52" using tiny_le by simp
  ultimately have 2: "\<bar>?z - ?y * 100\<bar> \<le> 100 / 2 ^ 53"
    by (rule round_double_close)
  from 1 2 have "\<bar>?z - 100 * q\<bar> < 1 / 2" by (simp only: abs_le_iff abs_less_iff) simp
  with round_half_even_error [of ?z] round_half_even_error [of "100 * q"]
  have "\<bar>(of_int (round_half_even ?z) :: rat) - of_int (round_half_even (100 * q))\<bar> < 2"
    by (simp only: abs_le_iff abs_less_iff) linarith
  then have "\<bar>round_half_even ?z - round_half_even (100 * q)\<bar> < 2"
    by (simp only: flip: of_int_diff of_int_abs)
  then show ?thesis by simp
qed

text \<open>
  Claim C1, amended. For a reference array \<open>V\<close> that is not \<^verbatim>\<open>None\<close> and not empty and an
  observed value \<open>x\<close> that is not NaN, \<open>percentile_rank\<close> returns the integer
  \<open>round ((count / len) * 100)\<close> evaluated in \<^verbatim>\<open>float64\<close>: the quotient rounded to a
  double, its product with 100 rounded to a double, then Python's rounding to the nearest
  integer with ties to even. The count takes the elements strictly below \<open>x\<close> only. The
  result is at most 1 away from \<open>round (100 * count / len)\<close>.
\<close>

theorem percentile_rank_strict_count_float:
  assumes "V \<noteq> []" and "x \<noteq> NaN"
  shows "\<exists>r. percentile_rank (Some V) x = Inr (Some r)
          \<and> r = round_half_even (round_double (round_double
                   (of_nat (length (filter (\<lambda>v. fl_less v x) V)) / of_nat (length V)) * 100))
          \<and> \<bar>r - round_half_even
                   (100 * of_nat (length (filter (\<lambda>v. fl_less v x) V)) / of_nat (length V))\<bar> \<le> 1
          \<and> \<not> fl_less x x"
proof -
  let ?c = "length (filter (\<lambda>v. fl_less v x) V)"
  let ?q = "of_nat ?c / of_nat (length V) :: rat"
  from assms(2) have nn: "\<not> isnan x" by (simp add: isnan_iff)
  have eq: "percentile_rank (Some V) x
      = Inr (Some (round_half_even (round_double (round_double ?q * 100))))"
    using percentile_rank_nonempty [OF assms(1) nn] by (simp add: np_sum_less_def)
  have "0 \<le> ?q" by simp
  moreover have "?q \<le> 1" using assms(1) by (simp add: divide_le_eq)
  ultimately have "\<bar>round_half_even (round_double (round_double ?q * 100))
      - round_half_even (100 * ?q)\<bar> \<le> 1"
    by (rule rank_close)
  moreover have "\<not> fl_less x x" by (cases x) simp_all
  ultimately show ?thesis using eq by simp
qed

text \<open>The tie case of the specification (10, 20, 20, 30 and \<open>x = 20\<close> give 25, not 50),
  and one element of eight below \<open>x\<close>: \<open>12.5\<close> is rounded to the even 12.\<close>

theorem percentile_rank_strict_count_float_witness:
  "percentile_rank (Some [Fin 10, Fin 20, Fin 20, Fin 30]) (Fin 20) = Inr (Some 25)
   \<and> percentile_rank (Some [Fin 10, Fin 20, Fin 20, Fin 30]) (Fin 20) \<noteq> Inr (Some 50)
   \<and> percentile_rank (Some [Fin 0, Fin 1, Fin 1, Fin 1, Fin 1, Fin 1, Fin 1, Fin 1]) (Fin 1)
       = Inr (Some 12)"
proof -
  have "round_half_even (25 / 2) = 12"
    using round_half_even_tie [of "25 / 2" 12] by simp
  then have t: "round_half_even (round_double (round_double (1 / 8) * 100)) = 12"
    by (simp add: round_double_eighth round_double_25_half)
  have f: "round_half_even (round_double (round_double (1 / 4) * 100)) = 25"
    by (simp add: round_double_quarter round_double_25 round_half_even_def)
  from percentile_rank_strict_count_float [of "[Fin 10, Fin 20, Fin 20, Fin 30]" "Fin 20"]
    percentile_rank_strict_count_float
      [of "[Fin 0, Fin 1, Fin 1, Fin 1, Fin 1, Fin 1, Fin 1, Fin 1]" "Fin 1"]
  show ?thesis by (simp add: t f)
qed

subsection \<open>The null results\<close>

text \<open>
  Claim C3, as stated: \<open>percentile_rank\<close> returns \<^verbatim>\<open>None\<close> also when the array is empty.
  It does not: on an empty array and a value that is not NaN the quotient \<open>0 / 0\<close> is NaN
  and \<^verbatim>\<open>round\<close> raises \<^verbatim>\<open>ValueError\<close>.
\<close>

theorem percentile_rank_empty_raises:
  "percentile_rank (Some []) (Fin 0) = Inl ValueError
   \<and> percentile_rank (Some []) (Fin 0) \<noteq> Inr None"
  by (simp add: percentile_rank_empty)

text \<open>
  Claim C3, amended: \<open>percentile_rank\<close> returns \<^verbatim>\<open>None\<close> exactly when the array is
  \<^verbatim>\<open>None\<close> or the observed value is NaN.
\<close>

theorem percentile_rank_null_iff:
  "percentile_rank V x = Inr None \<longleftrightarrow> V = None \<or> x = NaN"
proof (cases V)
  case None
  then show ?thesis by (simp add: percentile_rank_def)
next
  case (Some vs)
  then show ?thesis
    by (cases "isnan x") (simp_all add: percentile_rank_def isnan_iff split: sum.splits)
qed

theorem percentile_rank_null_iff_witness:
  "percentile_rank None (Fin 3) = Inr None
   \<and> percentile_rank (Some [Fin 1]) NaN = Inr None
   \<and> percentile_rank (Some [Fin 1]) (Fin 3) \<noteq> Inr None"
  using percentile_rank_null_iff [of None "Fin 3"]
    percentile_rank_null_iff [of "Some [Fin 1]" NaN]
    percentile_rank_null_iff [of "Some [Fin 1]" "Fin 3"]
  by simp

subsection \<open>Range and monotonicity\<close>

lemma fl_less_Fin_mono: "fl_less v (Fin a) \<Longrightarrow> a \<le> b \<Longrightarrow> fl_less v (Fin b)"
  by (cases v) simp_all

lemma length_filter_mono:
  assumes "\<And>v. v \<in> set xs \<Longrightarrow> f v \<Longrightarrow> g v"
  shows "length (filter f xs) \<le> length (filter g xs)"
  using assms by (induction xs) auto

lemma np_sum_less_mono: "a \<le> b \<Longrightarrow> np_sum_less vs (Fin a) \<le> np_sum_less vs (Fin b)"
  unfolding np_sum_less_def
  by (simp add: length_filter_mono fl_less_Fin_mono)

text \<open>
  Claim C4. For a non-empty sample array and finite observed values \<open>x1 \<le> x2\<close>,
  \<open>percentile_rank\<close> returns integers \<open>r1\<close> and \<open>r2\<close> in the range from 0 to 100 with
  \<open>r1 \<le> r2\<close>: the rank lies in \<open>[0, 100]\<close> and does not decrease as the value grows.
\<close>

theorem percentile_rank_range_mono:
  assumes "V \<noteq> []" and "a \<le> b"
  shows "\<exists>r1 r2. percentile_rank (Some V) (Fin a) = Inr (Some r1)
            \<and> percentile_rank (Some V) (Fin b) = Inr (Some r2)
            \<and> 0 \<le> r1 \<and> r1 \<le> r2 \<and> r2 \<le> 100"
proof -
  let ?v = "\<lambda>c. round_double
                (round_double (of_int (np_sum_less V (Fin c)) / of_int (int (length V))) * 100)"
  have eq: "percentile_rank (Some V) (Fin c) = Inr (Some (round_half_even (?v c)))" for c
    using assms(1) by (simp add: percentile_rank_nonempty)
  have lo: "0 \<le> round_half_even (?v c)" for c
    using rank_value(2) [OF assms(1), of "Fin c"] round_half_even_ge [of 0 "?v c"] by simp
  have hi: "round_half_even (?v c) \<le> 100" for c
    using rank_value(3) [OF assms(1), of "Fin c"] round_half_even_le [of "?v c" 100] by simp
  have mono: "round_half_even (?v a) \<le> round_half_even (?v b)"
  proof (intro round_half_even_mono round_double_mono mult_right_mono divide_right_mono)
    show "(of_int (np_sum_less V (Fin a)) :: rat) \<le> of_int (np_sum_less V (Fin b))"
      using np_sum_less_mono [OF assms(2), of V] by (simp only: of_int_le_iff)
  qed simp_all
  show ?thesis
    using lo [of a] hi [of b] mono by (simp add: eq)
qed

theorem percentile_rank_range_mono_witness:
  "\<exists>r1 r2. percentile_rank (Some [Fin 10, Fin 20, Fin 20, Fin 30]) (Fin 20) = Inr (Some r1)
      \<and> percentile_rank (Some [Fin 10, Fin 20, Fin 20, Fin 30]) (Fin 25) = Inr (Some r2)
      \<and> 0 \<le> r1 \<and> r1 \<le> r2 \<and> r2 \<le> 100"
  using percentile_rank_range_mono [of "[Fin 10, Fin 20, Fin 20, Fin 30]" 20 25] by simp

section \<open>Properties of the distribution statistics\<close>

lemma get_dist_stats_PyNone: "get_dist_stats PyNone = None"
  by (simp add: get_dist_stats_def)

lemma get_dist_stats_PyDict:
  "get_dist_stats (PyDict d) =
     Some \<lparr>p25 = dict_get d ''p25'' None, p50 = dict_get d ''p50'' None,
           p75 = dict_get d ''p75'' None, values_arr = None\<rparr>"
  by (simp add: get_dist_stats_def)

lemma get_dist_stats_PyArray:
  "get_dist_stats (PyArray xs) =
     (if filter (\<lambda>v. v \<noteq> NaN) xs = [] then None
      else Some \<lparr>p25 = Some (np_percentile (filter (\<lambda>v. v \<noteq> NaN) xs) 25),
                 p50 = Some (np_percentile (filter (\<lambda>v. v \<noteq> NaN) xs) 50),
                 p75 = Some (np_percentile (filter (\<lambda>v. v \<noteq> NaN) xs) 75),
                 values_arr = Some (filter (\<lambda>v. v \<noteq> NaN) xs)\<rparr>)"
  by (simp add: get_dist_stats_def Let_def isnan_iff)

lemma stats_values_nonempty:
  assumes "get_dist_stats obj = Some s" and "values_arr s = Some vs"
  shows "vs \<noteq> []"
proof (cases obj)
  case PyNone
  with assms show ?thesis by (simp add: get_dist_stats_PyNone)
next
  case (PyDict d)
  with assms show ?thesis by (auto simp add: get_dist_stats_PyDict)
next
  case (PyArray xs)
  with assms show ?thesis by (auto simp add: get_dist_stats_PyArray split: if_splits)
qed

lemma percentile_rank_stats_ok:
  assumes "get_dist_stats obj = Some s"
  shows "\<exists>pr. percentile_rank (values_arr s) x = Inr pr"
proof (cases "values_arr s")
  case None
  then show ?thesis by (simp add: percentile_rank_def)
next
  case (Some vs)
  with assms have "vs \<noteq> []" by (rule stats_values_nonempty)
  with Some show ?thesis
    by (cases "isnan x") (simp_all add: percentile_rank_nonempty, simp add: percentile_rank_def)
qed

text \<open>
  Claim C5. On a summary dict, \<open>get_dist_stats\<close> returns the values under the keys
  \<^verbatim>\<open>p25\<close>, \<^verbatim>\<open>p50\<close> and \<^verbatim>\<open>p75\<close> as they are, \<^verbatim>\<open>None\<close> for a key that is missing, and
  \<^verbatim>\<open>None\<close> as the raw sample; \<open>percentile_rank\<close> on that raw sample returns \<^verbatim>\<open>None\<close>
  for every observed value.
\<close>

theorem summary_dict_stats:
  "\<exists>r. get_dist_stats (PyDict d) = Some r
      \<and> p25 r = (case d ''p25'' of None \<Rightarrow> None | Some v \<Rightarrow> v)
      \<and> p50 r = (case d ''p50'' of None \<Rightarrow> None | Some v \<Rightarrow> v)
      \<and> p75 r = (case d ''p75'' of None \<Rightarrow> None | Some v \<Rightarrow> v)
      \<and> values_arr r = None
      \<and> (\<forall>x. percentile_rank (values_arr r) x = Inr None)"
  by (simp add: get_dist_stats_PyDict dict_get_def percentile_rank_def)

theorem summary_dict_stats_witness:
  "\<exists>r. get_dist_stats (PyDict [''p25'' \<mapsto> Some (Fin 1), ''p50'' \<mapsto> Some (Fin 2)]) = Some r
      \<and> p25 r = Some (Fin 1) \<and> p50 r = Some (Fin 2) \<and> p75 r = None
      \<and> values_arr r = None
      \<and> (\<forall>x. percentile_rank (values_arr r) x = Inr None)"
  using summary_dict_stats [of "[''p25'' \<mapsto> Some (Fin 1), ''p50'' \<mapsto> Some (Fin 2)]"]
  by simp

text \<open>
  Claim C9. Whenever \<open>get_dist_stats\<close> returns a result whose raw sample is not
  \<^verbatim>\<open>None\<close>, that sample is not empty: the length \<open>percentile_rank\<close> divides by is not
  zero, and \<open>percentile_rank\<close> on it returns for every observed value.
\<close>

theorem dist_stats_values_nonempty:
  assumes "get_dist_stats obj = Some r" and "values_arr r = Some vs"
  shows "vs \<noteq> [] \<and> int (length vs) \<noteq> 0
       \<and> (\<forall>x. \<exists>res. percentile_rank (Some vs) x = Inr res)"
proof -
  from assms have ne: "vs \<noteq> []" by (rule stats_values_nonempty)
  have "\<exists>res. percentile_rank (Some vs) x = Inr res" for x
    using percentile_rank_stats_ok [OF assms(1), of x] assms(2) by simp
  with ne show ?thesis by simp
qed

theorem dist_stats_values_nonempty_witness:
  "[Fin 7] \<noteq> [] \<and> int (length [Fin 7]) \<noteq> 0
   \<and> (\<forall>x. \<exists>res. percentile_rank (Some [Fin 7]) x = Inr res)"
proof -
  let ?r = "\<lparr>p25 = Some (np_percentile [Fin 7] 25), p50 = Some (np_percentile [Fin 7] 50),
             p75 = Some (np_percentile [Fin 7] 75), values_arr = Some [Fin 7]\<rparr>"
  have "get_dist_stats (PyArray [NaN, Fin 7]) = Some ?r"
    by (simp add: get_dist_stats_PyArray)
  moreover have "values_arr ?r = Some [Fin 7]" by simp
  ultimately show ?thesis by (rule dist_stats_values_nonempty)
qed

section \<open>Properties of feature assembly\<close>

lemma select_columns_present:
  assumes "set cs \<subseteq> dom df"
  shows "select_columns df cs = Inr (map (\<lambda>c. the (df c)) cs)"
  using assms by (induction cs) auto

lemma select_columns_missing:
  assumes "c \<in> set cs" and "df c = None"
  shows "select_columns df cs = Inl KeyError"
  using assms by (induction cs) (auto split: option.splits sum.splits)

lemma dom_input_df_filled: "dom (input_df_filled ui) = dom ui"
  by (auto simp add: input_df_filled_def dom_def)

text \<open>The dict that the form fills has every model feature as a key, with the float that
  the widget returned.\<close>

lemma user_input_keys: "set MODEL_ALL_FEATURES \<subseteq> dom (user_input number_input)"
  by (simp add: MODEL_ALL_FEATURES_def MODEL_CORE_FEATURES_def MODEL_DYNAMIC_FEATURES_def
      user_input_def UI_CORE_ORDER_def)

lemma user_input_value:
  assumes "k \<in> set MODEL_ALL_FEATURES"
  shows "user_input number_input k = Some (Some (number_input k))"
  using assms
  by (auto simp add: MODEL_ALL_FEATURES_def MODEL_CORE_FEATURES_def MODEL_DYNAMIC_FEATURES_def
      user_input_def UI_CORE_ORDER_def)

lemma filled_form_value:
  assumes "k \<in> set MODEL_ALL_FEATURES"
  shows "the (input_df_filled (user_input (st_number_input supplied)) k)
           = spec_default_zero (supplied k)"
proof (cases "supplied k")
  case None
  then show ?thesis
    by (simp add: input_df_filled_def user_input_value [OF assms] st_number_input_def
        fillna_def astype_float_def)
next
  case (Some v)
  then show ?thesis
    by (simp add: input_df_filled_def user_input_value [OF assms] st_number_input_def
        fillna_def astype_float_def isnan_iff)
qed

lemma select_form_columns:
  assumes "set cs \<subseteq> set MODEL_ALL_FEATURES"
  shows "select_columns (input_df_filled (user_input (st_number_input supplied))) cs
           = Inr (map (\<lambda>k. spec_default_zero (supplied k)) cs)"
proof -
  from assms user_input_keys [of "st_number_input supplied"]
  have "set cs \<subseteq> dom (input_df_filled (user_input (st_number_input supplied)))"
    by (simp only: dom_input_df_filled)
  then have "select_columns (input_df_filled (user_input (st_number_input supplied))) cs
      = Inr (map (\<lambda>c. the (input_df_filled (user_input (st_number_input supplied)) c)) cs)"
    by (rule select_columns_present)
  also have "map (\<lambda>c. the (input_df_filled (user_input (st_number_input supplied)) c)) cs
      = map (\<lambda>k. spec_default_zero (supplied k)) cs"
    using assms by (intro map_cong refl filled_form_value) auto
  finally show ?thesis .
qed

text \<open>
  Claim C6. For every mapping of user-supplied values, in which any subset of the fields
  may be absent, feature assembly (the form, the frame, \<^verbatim>\<open>fillna\<close> and the selection of
  the columns) produces the core vector from the 10 core names in their fixed order and the
  all-features vector from the core names followed by the 18 dynamic names in their fixed
  order; an absent or NaN entry is \<open>0.0\<close> there and every other supplied value is passed
  through unchanged.
\<close>

theorem feature_assembly:
  "X_core (user_input (st_number_input supplied))
     = Inr (map (\<lambda>k. spec_default_zero (supplied k)) MODEL_CORE_FEATURES)
   \<and> X_all (user_input (st_number_input supplied))
     = Inr (map (\<lambda>k. spec_default_zero (supplied k))
              (MODEL_CORE_FEATURES @ MODEL_DYNAMIC_FEATURES))
   \<and> length MODEL_CORE_FEATURES = 10 \<and> length MODEL_DYNAMIC_FEATURES = 18"
proof -
  have "X_core (user_input (st_number_input supplied))
      = Inr (map (\<lambda>k. spec_default_zero (supplied k)) MODEL_CORE_FEATURES)"
    unfolding X_core_def by (rule select_form_columns) (simp add: MODEL_ALL_FEATURES_def)
  moreover have "X_all (user_input (st_number_input supplied))
      = Inr (map (\<lambda>k. spec_default_zero (supplied k))
               (MODEL_CORE_FEATURES @ MODEL_DYNAMIC_FEATURES))"
    unfolding X_all_def using select_form_columns [of MODEL_ALL_FEATURES supplied]
    by (simp only: MODEL_ALL_FEATURES_def subset_refl)
  moreover have "length MODEL_CORE_FEATURES = 10"
    by (simp add: MODEL_CORE_FEATURES_def)
  moreover have "length MODEL_DYNAMIC_FEATURES = 18"
    by (simp add: MODEL_DYNAMIC_FEATURES_def)
  ultimately show ?thesis by simp
qed

text \<open>An input in which the baseline E2 is missing, and nothing is entered for the
  monitoring rounds: \<open>0.0\<close> at the place of the baseline E2 in the core vector, the
  supplied values everywhere else.\<close>

theorem feature_assembly_witness:
  "X_core (user_input (st_number_input
       [Age \<mapsto> Fin 30, BMI \<mapsto> Fin 22, Base FSH \<mapsto> Fin 7, Base PRL \<mapsto> Fin 15,
        Base LH \<mapsto> Fin 5, Base Testosterone \<mapsto> Fin (1 / 2), Base AMH \<mapsto> Fin 3,
        AFC_Left \<mapsto> Fin 8, AFC_Right \<mapsto> Fin 9]))
     = Inr [Fin 30, Fin 22, Fin 7, Fin 0, Fin 15, Fin 5, Fin (1 / 2), Fin 3, Fin 8, Fin 9]"
  using feature_assembly
    [of "[Age \<mapsto> Fin 30, BMI \<mapsto> Fin 22, Base FSH \<mapsto> Fin 7, Base PRL \<mapsto> Fin 15,
          Base LH \<mapsto> Fin 5, Base Testosterone \<mapsto> Fin (1 / 2), Base AMH \<mapsto> Fin 3,
          AFC_Left \<mapsto> Fin 8, AFC_Right \<mapsto> Fin 9]"]
  by (simp add: MODEL_CORE_FEATURES_def)

section \<open>Properties of the trigger day\<close>

text \<open>
  Claim C7. A predicted class that is in the class-to-day table is resolved to the day the
  table gives; for a class that is not in the table the result is the sentinel
  \<^verbatim>\<open>"N/A"\<close>. The lookup never fails.
\<close>

theorem trigger_day_lookup:
  "(trigger_label_day_mapping c = Some d \<longrightarrow>
      trigger_day_pred trigger_label_day_mapping c = Mapped_Day d)
   \<and> (trigger_label_day_mapping c = None \<longrightarrow>
      trigger_day_pred trigger_label_day_mapping c = Sentinel ''N/A'')"
  by (simp add: trigger_day_pred_def dict_get_def)

theorem trigger_day_lookup_witness:
  "trigger_day_pred [(0::nat) \<mapsto> (10::nat), 1 \<mapsto> 12] 1 = Mapped_Day 12
   \<and> trigger_day_pred [(0::nat) \<mapsto> (10::nat), 1 \<mapsto> 12] 2 = Sentinel ''N/A''"
  using trigger_day_lookup [of "[(0::nat) \<mapsto> (10::nat), 1 \<mapsto> 12]" 1 12]
    trigger_day_lookup [of "[(0::nat) \<mapsto> (10::nat), 1 \<mapsto> 12]" 2 0]
  by simp

section \<open>Properties of the percentile plot\<close>

lemma plot_step_no_stats:
  assumes "dict_get e2_percentiles key PyNone = PyNone" and "df key = Some val"
  shows "plot_step e2_percentiles df st (i, key) = Inr st"
  using assms by (simp add: plot_step_def get_dist_stats_PyNone)

lemma plot_loop_append:
  "plot_loop e2 df st (xs @ ys) =
     (case plot_loop e2 df st xs of Inl e \<Rightarrow> Inl e | Inr st' \<Rightarrow> plot_loop e2 df st' ys)"
  by (induction xs arbitrary: st) (simp_all split: sum.splits)

lemma plot_step_ok:
  assumes "df (snd ik) = Some val"
  shows "\<exists>st'. plot_step e2 df st ik = Inr st'"
proof (cases "get_dist_stats (dict_get e2 (snd ik) PyNone)")
  case None
  with assms show ?thesis by (simp add: plot_step_def)
next
  case (Some s)
  from percentile_rank_stats_ok [OF Some, of val]
  obtain pr where "percentile_rank (values_arr s) val = Inr pr" by blast
  with assms Some show ?thesis by (simp add: plot_step_def Let_def)
qed

lemma plot_loop_ok:
  assumes "snd ` set items \<subseteq> dom df"
  shows "\<exists>st'. plot_loop e2 df st items = Inr st'"
  using assms
proof (induction items arbitrary: st)
  case Nil
  then show ?case by simp
next
  case (Cons ik items)
  then obtain val where "df (snd ik) = Some val" by auto
  then obtain st1 where "plot_step e2 df st ik = Inr st1"
    using plot_step_ok [of df ik val e2 st] by blast
  moreover from Cons obtain st2 where "plot_loop e2 df st1 items = Inr st2" by fastforce
  ultimately show ?case by simp
qed

lemma e2_percentile_plot_ok:
  "\<exists>st'. e2_percentile_plot e2 (input_df_filled (user_input number_input)) = Inr st'"
  unfolding e2_percentile_plot_def
proof (rule plot_loop_ok)
  have "snd ` set (enumerate_from 1 [Serum E2 1, Serum E2 2, Serum E2 3])
          \<subseteq> set MODEL_ALL_FEATURES"
    by (simp add: enumerate_from_def MODEL_ALL_FEATURES_def MODEL_DYNAMIC_FEATURES_def upt_rec)
  with user_input_keys [of number_input]
  show "snd ` set (enumerate_from 1 [Serum E2 1, Serum E2 2, Serum E2 3])
          \<subseteq> dom (input_df_filled (user_input number_input))"
    by (simp only: dom_input_df_filled)
qed

text \<open>
  Claim C8. When the reference table has no entry for a field (the lookup gives
  \<^verbatim>\<open>None\<close>), \<open>get_dist_stats\<close> returns \<^verbatim>\<open>None\<close> and the round of the loop for that
  field changes neither the axes nor the percentile text: the loop gives what it gives
  without that field, so the other fields are still processed. The loop over the three
  monitoring rounds on the filled input frame of the form never raises.
\<close>

theorem missing_distribution_skipped:
  assumes "dict_get e2_percentiles key PyNone = PyNone" and "key \<in> dom df"
  shows "get_dist_stats (dict_get e2_percentiles key PyNone) = None
       \<and> plot_step e2_percentiles df st (i, key) = Inr st
       \<and> plot_loop e2_percentiles df st (before @ (i, key) # rest)
           = plot_loop e2_percentiles df st (before @ rest)
       \<and> (\<exists>st'. e2_percentile_plot e2_percentiles
                   (input_df_filled (user_input number_input)) = Inr st')"
proof -
  from assms(2) obtain val where val: "df key = Some val" by auto
  have step: "plot_step e2_percentiles df s (i, key) = Inr s" for s
    using assms(1) val by (rule plot_step_no_stats)
  have "plot_loop e2_percentiles df st (before @ (i, key) # rest)
           = plot_loop e2_percentiles df st (before @ rest)"
    by (simp add: plot_loop_append step split: sum.splits)
  with step [of st] assms(1) e2_percentile_plot_ok [of e2_percentiles number_input]
  show ?thesis by (simp add: get_dist_stats_PyNone)
qed

text \<open>A table with a raw sample for the first round only, and the value 20 in every field
  of the form: the second round has no entry, its round of the loop changes nothing, and
  the loop with it gives what the loop without it gives.\<close>

theorem missing_distribution_skipped_witness:
  "get_dist_stats
     (dict_get [Serum E2 1 \<mapsto> PyArray [Fin 10, Fin 20, Fin 20, Fin 30]] (Serum E2 2) PyNone)
     = None
   \<and> plot_loop [Serum E2 1 \<mapsto> PyArray [Fin 10, Fin 20, Fin 20, Fin 30]]
        (input_df_filled (user_input (\<lambda>k. Fin 20))) \<lparr>ax = [], percentile_text = []\<rparr>
        [(1, Serum E2 1), (2, Serum E2 2), (3, Serum E2 3)]
     = plot_loop [Serum E2 1 \<mapsto> PyArray [Fin 10, Fin 20, Fin 20, Fin 30]]
        (input_df_filled (user_input (\<lambda>k. Fin 20))) \<lparr>ax = [], percentile_text = []\<rparr>
        [(1, Serum E2 1), (3, Serum E2 3)]
   \<and> (\<exists>st'. e2_percentile_plot [Serum E2 1 \<mapsto> PyArray [Fin 10, Fin 20, Fin 20, Fin 30]]
               (input_df_filled (user_input (\<lambda>k. Fin 20))) = Inr st')"
proof -
  let ?e2 = "[Serum E2 1 \<mapsto> PyArray [Fin 10, Fin 20, Fin 20, Fin 30]]"
  let ?df = "input_df_filled (user_input (\<lambda>k. Fin 20))"
  have absent: "dict_get ?e2 (Serum E2 2) PyNone = PyNone"
    by (simp add: dict_get_def)
  have "Serum E2 2 \<in> set MODEL_ALL_FEATURES"
    by (simp add: MODEL_ALL_FEATURES_def MODEL_DYNAMIC_FEATURES_def)
  with user_input_keys [of "\<lambda>k. Fin 20"] have column: "Serum E2 2 \<in> dom ?df"
    by (simp only: dom_input_df_filled) (rule subsetD)
  from missing_distribution_skipped [OF absent column,
      of "\<lparr>ax = [], percentile_text = []\<rparr>" 2 "[(1, Serum E2 1)]" "[(3, Serum E2 3)]"
        "\<lambda>k. Fin 20"]
  show ?thesis by simp
qed

end
